theory Spec2Isabelle
  imports Main "HOL-Library.Multiset"
begin

section \<open>Event model (models.py)\<close>

text \<open>
  A naive \<open>datetime\<close> is represented by the number of microseconds since
  \<open>datetime.min\<close>, so comparison of datetimes is comparison of integers and the
  difference of two datetimes (a \<open>timedelta\<close>) is the difference of the integers, again
  in microseconds.  A \<open>date\<close> is the number of whole days since \<open>date.min\<close>.
\<close>

text \<open>
  A Python \<open>str\<close> is a sequence of Unicode code points; \<open>lit\<close> gives the code points of
  a string literal of the source.
\<close>

type_synonym codepoint = nat
type_synonym str = "codepoint list"

definition lit :: "string \<Rightarrow> str" where
  "lit s = map of_char s"

type_synonym datetime = int
type_synonym date = int
type_synonym timedelta = int

record Event =
  event_id :: str
  timestamp_start :: datetime
  timestamp_end :: "datetime option"
  source_type :: str
  title :: str
  details :: "(str \<times> str) list"
  people :: "str list"
  location :: "str option"

text \<open>
  \<open>IndexError\<close> and \<open>OverflowError\<close> are the two exceptions the modelled code can raise.
  \<open>InvalidInput\<close> is the distinguished precondition-violation error of the
  specification's error taxonomy; no function of the source raises it.
\<close>

datatype error = IndexError | OverflowError | InvalidInput

definition date_of :: "datetime \<Rightarrow> date" where
  "date_of dt = dt div 86400000000"

definition hour_of :: "datetime \<Rightarrow> int" where
  "hour_of dt = (dt div 3600000000) mod 24"

definition minute_of :: "datetime \<Rightarrow> int" where
  "minute_of dt = (dt div 60000000) mod 60"

text \<open>
  \<open>timedelta(minutes=m)\<close> normalises to days, seconds and microseconds and raises
  \<open>OverflowError\<close> when the number of days leaves \<open>[-999999999, 999999999]\<close>.
\<close>

definition timedelta_minutes :: "int \<Rightarrow> error + timedelta" where
  "timedelta_minutes m =
     (if - 999999999 \<le> m div 1440 \<and> m div 1440 \<le> 999999999
      then Inr (m * 60000000) else Inl OverflowError)"


section \<open>Day filter and session grouper (timeline.py)\<close>

text \<open>
  \<open>sorted(xs, key=k)\<close> is a stable sort; \<open>sort_key\<close> (insertion sort by key) is the
  library's stable sort.
\<close>

definition filter_events_for_day :: "Event list \<Rightarrow> date \<Rightarrow> Event list" where
  "filter_events_for_day events target_date =
     (let same_day_events = filter (\<lambda>e. date_of (timestamp_start e) = target_date) events
      in sort_key timestamp_start same_day_events)"

text \<open>
  The loop \<open>for prev, curr in zip(events, events[1:])\<close> with its two variables
  \<open>sessions\<close> and \<open>current_session\<close>.  The threshold \<open>timedelta(minutes=gap_minutes)\<close>
  is built anew in every iteration, so its \<open>OverflowError\<close> can only surface when there
  is at least one pair.
\<close>

fun group_loop ::
  "int \<Rightarrow> (Event \<times> Event) list \<Rightarrow> Event list list \<Rightarrow> Event list
     \<Rightarrow> error + (Event list list \<times> Event list)" where
  "group_loop gap_minutes [] sessions current_session = Inr (sessions, current_session)"
| "group_loop gap_minutes ((prev_e, curr_e) # pairs) sessions current_session =
     (case timedelta_minutes gap_minutes of
        Inl err \<Rightarrow> Inl err
      | Inr threshold \<Rightarrow>
          (let gap = timestamp_start curr_e - timestamp_start prev_e in
           if gap \<le> threshold
           then group_loop gap_minutes pairs sessions (current_session @ [curr_e])
           else group_loop gap_minutes pairs (sessions @ [current_session]) [curr_e]))"

definition group_into_sessions :: "Event list \<Rightarrow> int \<Rightarrow> error + Event list list" where
  "group_into_sessions events gap_minutes =
     (case events of
        [] \<Rightarrow> Inr []
      | e0 # rest \<Rightarrow>
          (case group_loop gap_minutes (zip events rest) [] [e0] of
             Inl err \<Rightarrow> Inl err
           | Inr (sessions, current_session) \<Rightarrow> Inr (sessions @ [current_session])))"


text \<open>
  Two executable predicates used to state where the session boundaries fall: within a
  session every start-to-start gap of neighbours is at most the threshold, and between
  the last event of a session and the first event of the next the gap exceeds it.
\<close>

fun gaps_within :: "timedelta \<Rightarrow> Event list \<Rightarrow> bool" where
  "gaps_within thr (a # b # xs) = (timestamp_start b - timestamp_start a \<le> thr \<and> gaps_within thr (b # xs))"
| "gaps_within thr xs = True"

fun gaps_between :: "timedelta \<Rightarrow> Event list list \<Rightarrow> bool" where
  "gaps_between thr (s # t # ss) = (thr < timestamp_start (hd t) - timestamp_start (last s) \<and> gaps_between thr (t # ss))"
| "gaps_between thr ss = True"


section \<open>Session summarizer (timeline.py)\<close>

record SessionSummary =
  sum_start :: datetime
  sum_end :: datetime
  sum_locations :: "str list"
  sum_people :: "str list"
  sum_titles :: "str list"
  sum_raw_events :: "Event list"

text \<open>
  \<open>summarize_session\<close> collects locations and people in a Python \<open>set\<close> and turns it
  into a list with \<open>list(...)\<close>.  The order in which a set yields its elements is fixed
  by the hash values of the strings and is not specified by the language; the model takes it
  as a parameter \<open>set_iter\<close>, which maps the sequence of insertions to the list that
  \<open>list(...)\<close> returns.  \<open>is_set_iteration\<close> states what every such order satisfies: it
  lists each inserted element once.
\<close>

definition is_set_iteration :: "(str list \<Rightarrow> str list) \<Rightarrow> bool" where
  "is_set_iteration set_iter = (\<forall>xs. distinct (set_iter xs) \<and> set (set_iter xs) = set xs)"

definition session_locations :: "Event list \<Rightarrow> str list" where
  "session_locations session =
     concat (map (\<lambda>e. case location e of None \<Rightarrow> [] | Some l \<Rightarrow> if l = [] then [] else [l]) session)"

definition session_people :: "Event list \<Rightarrow> str list" where
  "session_people session = concat (map people session)"

text \<open>
  \<open>session[0]\<close> raises \<open>IndexError\<close> on the empty list.  A \<open>datetime\<close> is always
  truthy, so \<open>timestamp_end or timestamp_start\<close> falls back exactly when the end is
  \<open>None\<close>; strings are truthy when non-empty.
\<close>

definition summarize_session ::
  "(str list \<Rightarrow> str list) \<Rightarrow> Event list \<Rightarrow> error + SessionSummary" where
  "summarize_session set_iter session =
     (case session of
        [] \<Rightarrow> Inl IndexError
      | e0 # _ \<Rightarrow>
          Inr \<lparr> sum_start = timestamp_start e0,
                sum_end = (case timestamp_end (last session) of
                             Some t \<Rightarrow> t | None \<Rightarrow> timestamp_start (last session)),
                sum_locations = set_iter (session_locations session),
                sum_people = set_iter (session_people session),
                sum_titles = filter (\<lambda>t. t \<noteq> []) (map title session),
                sum_raw_events = session \<rparr>)"

text \<open>
  The deduplicated list in order of first appearance, as the specification words it, and
  one admissible iteration order that differs from it.
\<close>

fun first_appearance :: "str list \<Rightarrow> str list" where
  "first_appearance [] = []"
| "first_appearance (x # xs) = x # first_appearance (filter (\<lambda>y. y \<noteq> x) xs)"

definition reversed_iteration :: "str list \<Rightarrow> str list" where
  "reversed_iteration xs = remdups (rev xs)"


section \<open>Sanitizer (story_generator.py)\<close>

text \<open>
  How Python classifies and folds a code point is decided by the Unicode tables of its
  library, which are not part of the repository.  The model takes them as a parameter:
  \<open>is_space\<close> is the whitespace test of \<open>\s\<close> and \<open>str.strip\<close>, \<open>is_digit\<close> the test of
  \<open>\d\<close>, \<open>is_word\<close> the test of \<open>\w\<close> and \<open>\b\<close>, \<open>is_alpha\<close> is \<open>str.isalpha\<close>,
  \<open>lower\<close> is \<open>str.lower\<close> (which may change the length of a text), and
  \<open>ci_match p c\<close> says that the pattern character \<open>p\<close> matches the text character \<open>c\<close>
  under \<open>re.IGNORECASE\<close>.  Nothing is assumed about them, so every statement below holds
  for Python's tables on arbitrary Unicode text.
\<close>

record tables =
  is_space :: "codepoint \<Rightarrow> bool"
  is_digit :: "codepoint \<Rightarrow> bool"
  is_word :: "codepoint \<Rightarrow> bool"
  is_alpha :: "codepoint \<Rightarrow> bool"
  lower :: "str \<Rightarrow> str"
  ci_match :: "codepoint \<Rightarrow> codepoint \<Rightarrow> bool"

definition strip :: "tables \<Rightarrow> str \<Rightarrow> str" where
  "strip U s = rev (dropWhile (is_space U) (rev (dropWhile (is_space U) s)))"

text \<open>The substring test \<open>t in s\<close>.\<close>

fun contains :: "str \<Rightarrow> str \<Rightarrow> bool" where
  "contains t [] = (t = [])"
| "contains t (c # cs) = (take (length t) (c # cs) = t \<or> contains t cs)"

subsection \<open>The regular expressions of the source\<close>

text \<open>
  Every pattern of the source is a sequence of atoms: one character of a class, an optional
  character of a class (\<open>c?\<close>), a greedy repetition of a class with a lower bound
  (\<open>c*\<close>, \<open>c+\<close>, \<open>c{2,}\<close>) and the word boundary \<open>\b\<close>.  \<open>run U pat prev s\<close> lists
  the lengths of the matches of \<open>pat\<close> that start at the beginning of \<open>s\<close>, where \<open>prev\<close>
  is the character before it, in the order a backtracking matcher finds them: greedy
  alternatives first.  The match \<open>re\<close> reports is the first of the list.
\<close>

datatype atom =
  One "codepoint \<Rightarrow> bool" | Opt "codepoint \<Rightarrow> bool" | AtLeast nat "codepoint \<Rightarrow> bool" | Bnd

definition word_at :: "tables \<Rightarrow> codepoint option \<Rightarrow> bool" where
  "word_at U p = (case p of None \<Rightarrow> False | Some c \<Rightarrow> is_word U c)"

fun next_char :: "str \<Rightarrow> codepoint option" where
  "next_char [] = None"
| "next_char (c # cs) = Some c"

fun run :: "tables \<Rightarrow> atom list \<Rightarrow> codepoint option \<Rightarrow> str \<Rightarrow> nat list" where
  "run U [] prev s = [0]"
| "run U (One P # pat) prev [] = []"
| "run U (One P # pat) prev (c # cs) = (if P c then map Suc (run U pat (Some c) cs) else [])"
| "run U (Opt P # pat) prev [] = run U pat prev []"
| "run U (Opt P # pat) prev (c # cs) =
     (if P c then map Suc (run U pat (Some c) cs) else []) @ run U pat prev (c # cs)"
| "run U (AtLeast n P # pat) prev [] = (if n = 0 then run U pat prev [] else [])"
| "run U (AtLeast n P # pat) prev (c # cs) =
     (if P c then map Suc (run U (AtLeast (n - 1) P # pat) (Some c) cs) else []) @
     (if n = 0 then run U pat prev (c # cs) else [])"
| "run U (Bnd # pat) prev s =
     (if word_at U prev \<noteq> word_at U (next_char s) then run U pat prev s else [])"

text \<open>
  \<open>re.sub\<close> scans left to right and replaces the leftmost non-overlapping matches.  The
  counter \<open>skip\<close> is the number of characters of the current match still to be dropped.
  No pattern of the source matches the empty string, so an empty match is not a case.
\<close>

fun re_sub_scan ::
  "tables \<Rightarrow> atom list \<Rightarrow> str \<Rightarrow> nat \<Rightarrow> codepoint option \<Rightarrow> str \<Rightarrow> str" where
  "re_sub_scan U pat repl skip prev [] = []"
| "re_sub_scan U pat repl (Suc k) prev (c # cs) = re_sub_scan U pat repl k (Some c) cs"
| "re_sub_scan U pat repl 0 prev (c # cs) =
     (case run U pat prev (c # cs) of
        Suc n # _ \<Rightarrow> repl @ re_sub_scan U pat repl n (Some c) cs
      | _ \<Rightarrow> c # re_sub_scan U pat repl 0 (Some c) cs)"

definition re_sub :: "tables \<Rightarrow> atom list \<Rightarrow> str \<Rightarrow> str \<Rightarrow> str" where
  "re_sub U pat repl text = re_sub_scan U pat repl 0 None text"

text \<open>
  \<open>re.search(pat, s) is not None\<close>: the pattern matches at some position of the text.
\<close>

fun re_search_from :: "tables \<Rightarrow> atom list \<Rightarrow> codepoint option \<Rightarrow> str \<Rightarrow> bool" where
  "re_search_from U pat prev [] = (run U pat prev [] \<noteq> [])"
| "re_search_from U pat prev (c # cs) =
     (run U pat prev (c # cs) \<noteq> [] \<or> re_search_from U pat (Some c) cs)"

definition re_search :: "tables \<Rightarrow> atom list \<Rightarrow> str \<Rightarrow> bool" where
  "re_search U pat text = re_search_from U pat None text"

text \<open>A literal (\<open>re.escape\<close>) under \<open>re.IGNORECASE\<close>.\<close>

definition literal_ci :: "tables \<Rightarrow> str \<Rightarrow> atom list" where
  "literal_ci U t = map (\<lambda>p. One (ci_match U p)) t"

definition pat_bpm :: "tables \<Rightarrow> atom list" where
  "pat_bpm U = [Bnd, Opt (\<lambda>c. c = of_char CHR ''~''), AtLeast 0 (is_space U),
                AtLeast 1 (is_digit U), AtLeast 0 (is_space U)] @ literal_ci U (lit ''bpm'') @ [Bnd]"

definition pat_steps :: "tables \<Rightarrow> atom list" where
  "pat_steps U = [Bnd, AtLeast 1 (is_digit U), AtLeast 0 (is_space U)] @
                 literal_ci U (lit ''steps'') @ [Bnd]"

definition pat_vital_signs :: "tables \<Rightarrow> atom list" where
  "pat_vital_signs U = literal_ci U (lit ''vital signs'') @
     [AtLeast 0 (\<lambda>c. c \<notin> set (lit ''.!?'')), Opt (\<lambda>c. c \<in> set (lit ''.!?''))]"

definition pat_spaces :: "tables \<Rightarrow> atom list" where
  "pat_spaces U = [AtLeast 2 (is_space U)]"

definition FORBIDDEN_HEALTH_TERMS :: "str list" where
  "FORBIDDEN_HEALTH_TERMS = map lit [''heart rate'', ''hr'', ''bpm'', ''beats per minute'',
     ''steps'', ''step count'', ''stress'']"

definition remove_term :: "tables \<Rightarrow> str \<Rightarrow> str \<Rightarrow> str" where
  "remove_term U text term =
     (if contains term (lower U text) then re_sub U (literal_ci U term) [] text else text)"

definition sanitize_text :: "tables \<Rightarrow> str \<Rightarrow> str" where
  "sanitize_text U text =
     (if text = [] then text
      else let text = re_sub U (pat_bpm U) [] text;
               text = re_sub U (pat_steps U) [] text;
               text = re_sub U (pat_vital_signs U) [] text;
               text = foldl (remove_term U) text FORBIDDEN_HEALTH_TERMS;
               text = re_sub U (pat_spaces U) (lit '' '') text
           in strip U text)"


subsection \<open>Predicates on text used in the statements\<close>

text \<open>
  \<open>no_sensitive\<close> says that a text holds none of the sensitive patterns: no numeric
  \<open>bpm\<close> mention, no numeric \<open>steps\<close> mention and no \<open>vital signs\<close> clause (none of the
  three regular expressions matches anywhere), and no forbidden term occurs in the
  lower-cased text, which is the test the code makes.  \<open>tidy\<close> says that a text has no two
  adjacent whitespace characters and no whitespace at either end.
\<close>

fun no_double_space :: "tables \<Rightarrow> str \<Rightarrow> bool" where
  "no_double_space U (a # b # cs) =
     (\<not> (is_space U a \<and> is_space U b) \<and> no_double_space U (b # cs))"
| "no_double_space U cs = True"

definition tidy :: "tables \<Rightarrow> str \<Rightarrow> bool" where
  "tidy U s = (no_double_space U s \<and>
               (s = [] \<or> (\<not> is_space U (hd s) \<and> \<not> is_space U (last s))))"

definition no_sensitive :: "tables \<Rightarrow> str \<Rightarrow> bool" where
  "no_sensitive U text =
     (\<not> re_search U (pat_bpm U) text \<and>
      \<not> re_search U (pat_steps U) text \<and>
      \<not> re_search U (pat_vital_signs U) text \<and>
      list_all (\<lambda>term. \<not> contains term (lower U text)) FORBIDDEN_HEALTH_TERMS)"


section \<open>Narrative and caregiver summary (story_generator.py)\<close>

text \<open>\<open>sep.join(xs)\<close>, \<open>str(n)\<close> of a length, and \<open>strftime("%H:%M")\<close>.\<close>

fun join :: "str \<Rightarrow> str list \<Rightarrow> str" where
  "join sep [] = []"
| "join sep [x] = x"
| "join sep (x # y # ys) = x @ sep @ join sep (y # ys)"

definition digit_char :: "nat \<Rightarrow> codepoint" where
  "digit_char n = lit ''0123456789'' ! (n mod 10)"

fun str_nat :: "nat \<Rightarrow> str" where
  "str_nat n = (if n < 10 then [digit_char n] else str_nat (n div 10) @ [digit_char n])"

definition two_digits :: "int \<Rightarrow> str" where
  "two_digits n = [digit_char (nat n div 10), digit_char (nat n)]"

definition strftime_HM :: "datetime \<Rightarrow> str" where
  "strftime_HM dt = two_digits (hour_of dt) @ lit '':'' @ two_digits (minute_of dt)"

definition time_period :: "datetime \<Rightarrow> str" where
  "time_period dt =
     (let h = hour_of dt in
      if h < 12 then lit ''in the morning''
      else if h < 17 then lit ''in the afternoon''
      else lit ''in the evening'')"

text \<open>
  \<open>re.split\<close> on a one-character class: every separator ends a piece, so \<open>n\<close>
  separators give \<open>n + 1\<close> pieces, some of them possibly empty.
\<close>

fun split_on :: "(codepoint \<Rightarrow> bool) \<Rightarrow> str \<Rightarrow> str list" where
  "split_on P [] = [[]]"
| "split_on P (c # cs) =
     (if P c then [] # split_on P cs
      else (case split_on P cs of [] \<Rightarrow> [[c]] | x # xs \<Rightarrow> (c # x) # xs))"

text \<open>
  \<open>_clean_titles_for_story\<close>: each title is sanitized, split at the separators, and a
  segment is dropped by the first \<open>continue\<close> that applies; the kept segments are
  deduplicated in order and at most three are joined.  \<open>segments_of\<close> is the inner loop,
  over the pieces of one sanitized title.
\<close>

definition unique_in_order :: "str list \<Rightarrow> str list" where
  "unique_in_order items = foldl (\<lambda>out x. if x \<in> set out then out else out @ [x]) [] items"

definition STOP_WORDS :: "str list" where
  "STOP_WORDS = map lit [''low'', ''medium'', ''high'', ''normal'', ''~'']"

definition keep_segment :: "tables \<Rightarrow> str \<Rightarrow> bool" where
  "keep_segment U seg =
     (let low = lower U seg in
      seg \<noteq> [] \<and>
      low \<notin> set STOP_WORDS \<and>
      \<not> list_ex (\<lambda>k. contains k low)
           (map lit [''bpm'', ''hr '', ''hr~'', ''stress'', ''steps'']) \<and>
      \<not> list_ex (is_digit U) seg \<and>
      \<not> (\<not> list_ex (is_alpha U) seg \<or> length seg < 3))"

definition segments_of :: "tables \<Rightarrow> str \<Rightarrow> str list" where
  "segments_of U sanitized =
     filter (keep_segment U)
       (map (strip U) (split_on (\<lambda>c. c \<in> set (lit ''|,;/'')) sanitized))"

definition title_segments :: "tables \<Rightarrow> str \<Rightarrow> str list" where
  "title_segments U t = segments_of U (sanitize_text U t)"

definition clean_titles_for_story :: "tables \<Rightarrow> str list \<Rightarrow> str" where
  "clean_titles_for_story U raw_titles =
     (let segments = concat (map (title_segments U) raw_titles) in
      if segments = [] then []
      else join (lit '', '') (take 3 (unique_in_order segments)))"

text \<open>
  \<open>_fallback_narrative\<close>: the loop leaves after the fourth summary, so it renders the
  first four.
\<close>

definition moment_sentence :: "tables \<Rightarrow> SessionSummary \<Rightarrow> str" where
  "moment_sentence U s =
     (let period = time_period (sum_start s);
          start_t = strftime_HM (sum_start s);
          end_t = strftime_HM (sum_end s);
          locs = (if sum_locations s \<noteq> [] then join (lit '', '') (sum_locations s) else []);
          loc_phrase = (if locs \<noteq> [] then lit '' at '' @ locs else lit '' in a familiar place'');
          ppl = (if sum_people s \<noteq> [] then join (lit '', '') (sum_people s) else []);
          people_phrase = (if ppl \<noteq> [] then lit '' with '' @ ppl else []);
          titles_str = clean_titles_for_story U (sum_titles s);
          act_phrase = (if titles_str \<noteq> [] then lit '' while focusing on '' @ lower U titles_str
                        else [])
      in lit ''During one moment '' @ period @ lit '', between '' @ start_t @ lit '' and '' @
         end_t @ lit '', you spent time'' @ loc_phrase @ people_phrase @ act_phrase @ lit ''.'')"

definition fallback_narrative :: "tables \<Rightarrow> SessionSummary list \<Rightarrow> str \<Rightarrow> str" where
  "fallback_narrative U session_summaries target_date_str =
     (if session_summaries = [] then
        lit ''Only a few small moments were recorded on '' @ target_date_str @
        lit '', but it was still your day, shaped by your own rhythm and choices.''
      else
        let intro = lit ''On '' @ target_date_str @
                    lit '', a few key moments from your day were recorded.'';
            moment_sentences = map (moment_sentence U) (take 4 session_summaries);
            body = join (lit '' '') moment_sentences;
            closing = lit ''Even though these notes do not capture every detail, '' @
                      lit ''they still trace a gentle outline of how you moved through your day.''
        in intro @ lit '' '' @ body @ lit [CHR 0x0A, CHR 0x0A] @ closing)"

text \<open>
  \<open>_rule_based_caregiver_summary\<close>: \<open>caregiver_bullets\<close> is the list \<open>bullets\<close> before
  the final pass, which sanitizes each bullet and joins the results with newlines.
\<close>

definition any_word_in :: "str list \<Rightarrow> str \<Rightarrow> bool" where
  "any_word_in ws low = list_ex (\<lambda>w. contains w low) ws"

definition unique_nonempty :: "str list \<Rightarrow> str list" where
  "unique_nonempty items =
     foldl (\<lambda>out x. if x \<noteq> [] \<and> x \<notin> set out then out @ [x] else out) [] items"

definition caregiver_bullets :: "tables \<Rightarrow> SessionSummary list \<Rightarrow> str list" where
  "caregiver_bullets U session_summaries =
     (let num_sessions = length session_summaries;
          all_locations = concat (map sum_locations session_summaries);
          all_people = concat (map sum_people session_summaries);
          lows = map (lower U) (concat (map sum_titles session_summaries));
          has_health = list_ex (any_word_in (map lit [''health'', ''doctor'', ''clinic'',
                                  ''hospital'', ''appointment'', ''check''])) lows;
          has_messages = list_ex (any_word_in (map lit [''message'', ''whatsapp'', ''text''])) lows;
          has_calls = list_ex (contains (lit ''call'')) lows;
          locs_unique = unique_nonempty all_locations;
          people_unique = unique_nonempty all_people;
          comms_parts = (if has_calls then [lit ''phone calls''] else []) @
                        (if has_messages then [lit ''messages''] else [])
      in [lit ''- There were '' @ str_nat num_sessions @ lit '' recorded activity periods today.''] @
         (if locs_unique \<noteq> [] then
            [lit ''- Activities took place at locations such as '' @
             join (lit '', '') (take 4 locs_unique) @ lit ''.'']
          else []) @
         (if people_unique \<noteq> [] then
            [lit ''- Time was spent with '' @ join (lit '', '') (take 4 people_unique) @ lit ''.'']
          else []) @
         (if comms_parts \<noteq> [] then
            [lit ''- The log for this day includes '' @ join (lit '' and '') comms_parts @
             lit '' with others.'']
          else []) @
         (if has_health then
            [lit ''- Some entries relate to health checks or appointments earlier in the day (without detailed measurements).'']
          else []) @
         [lit ''- Continue gentle check-ins according to the usual routine.''])"

definition rule_based_caregiver_summary :: "tables \<Rightarrow> SessionSummary list \<Rightarrow> str" where
  "rule_based_caregiver_summary U session_summaries =
     (if session_summaries = [] then
        lit ''- No specific activities were recorded for this day.'' @ lit [CHR 0x0A] @
        lit ''- Continue gentle check-ins as usual.''
      else join (lit [CHR 0x0A]) (map (sanitize_text U) (caregiver_bullets U session_summaries)))"

record Story =
  memory_story :: str
  caregiver_summary :: str

definition generate_ai_story_with_ollama ::
  "tables \<Rightarrow> SessionSummary list \<Rightarrow> str \<Rightarrow> Story" where
  "generate_ai_story_with_ollama U session_summaries target_date_str =
     \<lparr> memory_story = fallback_narrative U session_summaries target_date_str,
       caregiver_summary = rule_based_caregiver_summary U session_summaries \<rparr>"




section \<open>The pipeline (main_memory_engine.py)\<close>

text \<open>
  Reading the CSV files is outside the model: \<open>events_by_source\<close> is the dictionary of the
  loaded events, in insertion order.  \<open>date.isoformat\<close> is library code and a parameter.
  The list comprehension over the sessions stops at the first error.
\<close>

fun summarize_all ::
  "(str list \<Rightarrow> str list) \<Rightarrow> Event list list \<Rightarrow> error + SessionSummary list" where
  "summarize_all set_iter [] = Inr []"
| "summarize_all set_iter (s # ss) =
     (case summarize_session set_iter s of
        Inl err \<Rightarrow> Inl err
      | Inr x \<Rightarrow> (case summarize_all set_iter ss of Inl err \<Rightarrow> Inl err | Inr xs \<Rightarrow> Inr (x # xs)))"

record EngineResult =
  res_target_date :: date
  res_total_events :: nat
  res_num_sessions :: nat
  res_memory_story :: str
  res_caregiver_summary :: str
  res_per_source_counts :: "(str \<times> nat) list"

definition run_engine_for_date ::
  "tables \<Rightarrow> (date \<Rightarrow> str) \<Rightarrow> (str list \<Rightarrow> str list) \<Rightarrow> (str \<times> Event list) list
     \<Rightarrow> date \<Rightarrow> int \<Rightarrow> error + EngineResult" where
  "run_engine_for_date U isoformat set_iter events_by_source target_date gap_minutes =
     (let all_events = concat (map snd events_by_source);
          day_events = filter_events_for_day all_events target_date;
          per_source_counts = map (\<lambda>(k, v). (k, length v)) events_by_source
      in if day_events = [] then
           Inr \<lparr> res_target_date = target_date,
                 res_total_events = 0,
                 res_num_sessions = 0,
                 res_memory_story =
                   lit ''No events were found for '' @ isoformat target_date @
                   lit ''. There is nothing to reconstruct for this day.'',
                 res_caregiver_summary =
                   lit ''- No specific activities were recorded for this date.'' @ lit [CHR 0x0A] @
                   lit ''- Continue gentle check-ins according to the usual routine.'',
                 res_per_source_counts = per_source_counts \<rparr>
         else
           (case group_into_sessions day_events gap_minutes of
              Inl err \<Rightarrow> Inl err
            | Inr sessions \<Rightarrow>
                (case summarize_all set_iter sessions of
                   Inl err \<Rightarrow> Inl err
                 | Inr summaries \<Rightarrow>
                     (let result = generate_ai_story_with_ollama U summaries (isoformat target_date)
                      in Inr \<lparr> res_target_date = target_date,
                               res_total_events = length day_events,
                               res_num_sessions = length sessions,
                               res_memory_story = memory_story result,
                               res_caregiver_summary = caregiver_summary result,
                               res_per_source_counts = per_source_counts \<rparr>))))"

text \<open>
  \<open>main\<close> after argument parsing: the strings it prints, one per \<open>print\<close> call, and the
  exception that ends it early, if any.
\<close>

definition main_cli ::
  "tables \<Rightarrow> (date \<Rightarrow> str) \<Rightarrow> (str list \<Rightarrow> str list) \<Rightarrow> (str \<times> Event list) list
     \<Rightarrow> date \<Rightarrow> str \<Rightarrow> int \<Rightarrow> str list \<times> error option" where
  "main_cli U isoformat set_iter events_by_source target_date data_dir gap_minutes =
     (let data_dir = rev (dropWhile (\<lambda>c. c \<in> set (lit [CHR ''/'', CHR 0x5C])) (rev data_dir));
          total_events = sum_list (map (\<lambda>(k, v). length v) events_by_source);
          all_events = concat (map snd events_by_source);
          day_events = filter_events_for_day all_events target_date;
          printed =
            [lit ''Loading events for '' @ isoformat target_date @ lit '' from '' @
               lit [CHR 0x27] @ data_dir @ lit [CHR 0x27] @ lit ''...'' @ lit [CHR 0x0A]] @
            map (\<lambda>(source_name, events).
                   source_name @ lit '' events: '' @ str_nat (length events))
              events_by_source @
            [lit [CHR 0x0A] @ lit ''Total events loaded (all days): '' @ str_nat total_events,
             lit ''Total events on '' @ isoformat target_date @ lit '': '' @
               str_nat (length day_events)]
      in if day_events = [] then
           (printed @ [lit [CHR 0x0A] @
              lit ''No events found for this date. Nothing to send to the story generator.''], None)
         else
           (case group_into_sessions day_events gap_minutes of
              Inl err \<Rightarrow> (printed, Some err)
            | Inr sessions \<Rightarrow>
                (let printed = printed @
                       [lit ''Number of sessions: '' @ str_nat (length sessions) @ lit [CHR 0x0A]]
                 in case summarize_all set_iter sessions of
                      Inl err \<Rightarrow> (printed, Some err)
                    | Inr summaries \<Rightarrow>
                        (let result = generate_ai_story_with_ollama U summaries
                                        (isoformat target_date)
                         in (printed @
                               [lit [CHR 0x0A] @ lit ''=== MEMORY STORY (AI) ==='' @ lit [CHR 0x0A],
                                memory_story result,
                                lit [CHR 0x0A] @ lit ''=== CAREGIVER SUMMARY (AI) ==='' @
                                  lit [CHR 0x0A],
                                caregiver_summary result], None)))))"


section \<open>Sample data\<close>

text \<open>
  The worked examples are ASCII text.  \<open>ascii_tables\<close> is what Python's tables say about
  the code points below 128: whitespace is 9 to 13, 28 to 31 and 32, digits are \<open>0\<close> to
  \<open>9\<close>, word characters are letters, digits and the underscore, and case folding maps
  the 26 capital letters.  It serves only to evaluate the examples.
\<close>

definition ascii_lower :: "codepoint \<Rightarrow> codepoint" where
  "ascii_lower c = (if 65 \<le> c \<and> c \<le> 90 then c + 32 else c)"

definition ascii_tables :: tables where
  "ascii_tables =
     \<lparr> is_space = (\<lambda>c. (9 \<le> c \<and> c \<le> 13) \<or> (28 \<le> c \<and> c \<le> 32)),
       is_digit = (\<lambda>c. 48 \<le> c \<and> c \<le> 57),
       is_word = (\<lambda>c. (48 \<le> c \<and> c \<le> 57) \<or> (65 \<le> c \<and> c \<le> 90) \<or> c = 95 \<or>
                        (97 \<le> c \<and> c \<le> 122)),
       is_alpha = (\<lambda>c. (65 \<le> c \<and> c \<le> 90) \<or> (97 \<le> c \<and> c \<le> 122)),
       lower = map ascii_lower,
       ci_match = (\<lambda>p c. ascii_lower c = ascii_lower p) \<rparr>"

text \<open>A small constructor for the concrete events used in the worked examples.\<close>

definition sample_event :: "string \<Rightarrow> datetime \<Rightarrow> string option \<Rightarrow> Event" where
  "sample_event i t loc = \<lparr>event_id = lit i, timestamp_start = t, timestamp_end = None,
     source_type = lit ''calendar'', title = lit i, details = [], people = [],
     location = map_option lit loc\<rparr>"


definition sample_isoformat :: "date \<Rightarrow> str" where
  "sample_isoformat d = (if d = 739251 then lit ''2025-01-01'' else lit ''another day'')"




section \<open>Properties of the session grouper\<close>

lemma gaps_within_snoc:
  "gaps_within thr (s @ [c]) = (gaps_within thr s \<and> (s \<noteq> [] \<longrightarrow> timestamp_start c - timestamp_start (last s) \<le> thr))"
  by (induction thr s rule: gaps_within.induct) auto

lemma gaps_between_snoc:
  "gaps_between thr (ss @ [s]) = (gaps_between thr ss \<and> (ss \<noteq> [] \<longrightarrow> thr < timestamp_start (hd s) - timestamp_start (last (last ss))))"
  by (induction thr ss rule: gaps_between.induct) auto

lemma group_loop_inv:
  assumes "timedelta_minutes g = Inr thr"
  shows "cur \<noteq> [] \<Longrightarrow> last cur = x \<Longrightarrow> [] \<notin> set ss \<Longrightarrow> gaps_within thr cur \<Longrightarrow>
     list_all (gaps_within thr) ss \<Longrightarrow> gaps_between thr (ss @ [cur]) \<Longrightarrow>
     \<exists>ss' cur'. group_loop g (zip (x # rest) rest) ss cur = Inr (ss', cur') \<and>
        concat ss' @ cur' = concat ss @ cur @ rest \<and> cur' \<noteq> [] \<and> [] \<notin> set ss' \<and>
        gaps_within thr cur' \<and> list_all (gaps_within thr) ss' \<and> gaps_between thr (ss' @ [cur'])"
proof (induction rest arbitrary: x ss cur)
  case Nil
  then show ?case by simp
next
  case (Cons c rest)
  show ?case
  proof (cases "timestamp_start c - timestamp_start x \<le> thr")
    case True
    have "\<exists>ss' cur'. group_loop g (zip (c # rest) rest) ss (cur @ [c]) = Inr (ss', cur') \<and>
        concat ss' @ cur' = concat ss @ (cur @ [c]) @ rest \<and> cur' \<noteq> [] \<and> [] \<notin> set ss' \<and>
        gaps_within thr cur' \<and> list_all (gaps_within thr) ss' \<and> gaps_between thr (ss' @ [cur'])"
      using Cons.prems True
      by (intro Cons.IH) (auto simp: gaps_within_snoc gaps_between_snoc)
    then show ?thesis using True assms by simp
  next
    case False
    have "\<exists>ss' cur'. group_loop g (zip (c # rest) rest) (ss @ [cur]) [c] = Inr (ss', cur') \<and>
        concat ss' @ cur' = concat (ss @ [cur]) @ [c] @ rest \<and> cur' \<noteq> [] \<and> [] \<notin> set ss' \<and>
        gaps_within thr cur' \<and> list_all (gaps_within thr) ss' \<and> gaps_between thr (ss' @ [cur'])"
    proof (intro Cons.IH)
      show "gaps_between thr ((ss @ [cur]) @ [[c]])"
        using Cons.prems False by (subst gaps_between_snoc) auto
    qed (use Cons.prems in auto)
    then show ?thesis using False assms by simp
  qed
qed

lemma gaps_within_nth:
  "gaps_within thr s = (\<forall>i. Suc i < length s \<longrightarrow> timestamp_start (s ! Suc i) - timestamp_start (s ! i) \<le> thr)"
proof (induction thr s rule: gaps_within.induct)
  case (1 thr a b xs)
  show ?case unfolding gaps_within.simps 1
    by (auto simp: nth_Cons split: nat.splits)
qed auto

lemma gaps_between_nth:
  "gaps_between thr ss = (\<forall>k. Suc k < length ss \<longrightarrow> thr < timestamp_start (hd (ss ! Suc k)) - timestamp_start (last (ss ! k)))"
proof (induction thr ss rule: gaps_between.induct)
  case (1 thr s t ss)
  show ?case unfolding gaps_between.simps 1
    by (auto simp: nth_Cons split: nat.splits)
qed auto

lemma group_into_sessions_inv:
  assumes "timedelta_minutes g = Inr thr"
  shows "\<exists>sessions. group_into_sessions events g = Inr sessions \<and> concat sessions = events \<and>
     [] \<notin> set sessions \<and> list_all (gaps_within thr) sessions \<and> gaps_between thr sessions"
proof (cases events)
  case Nil
  then show ?thesis by (simp add: group_into_sessions_def)
next
  case (Cons e0 rest)
  from group_loop_inv [OF assms, of "[e0]" e0 "[]" rest]
  obtain ss' cur' where h: "group_loop g (zip (e0 # rest) rest) [] [e0] = Inr (ss', cur')"
    "concat ss' @ cur' = e0 # rest" "cur' \<noteq> []" "[] \<notin> set ss'" "gaps_within thr cur'"
    "list_all (gaps_within thr) ss'" "gaps_between thr (ss' @ [cur'])"
    by auto
  then show ?thesis using Cons by (simp add: group_into_sessions_def)
qed

lemma group_loop_overflow:
  "timedelta_minutes g = Inl err \<Longrightarrow> ps \<noteq> [] \<Longrightarrow> group_loop g ps ss cur = Inl err"
  by (cases ps) auto

lemma sorted_concat_member:
  "sorted (map f (concat ss)) \<Longrightarrow> s \<in> set ss \<Longrightarrow> sorted (map f s)"
  by (induction ss) (auto simp: sorted_append)

text \<open>
  Claim C1.  Whenever the threshold \<open>timedelta(minutes=gap_minutes)\<close> is a
  representable duration, \<open>group_into_sessions\<close> returns a list of sessions that is a
  partition of its input: the concatenation of the sessions is the input list itself (nothing
  lost, nothing duplicated, order kept), no session is empty, any two neighbours inside one
  session have a start-to-start gap of at most the threshold, and the last event of a session
  and the first event of the next one have a start-to-start gap above the threshold.  The
  statement needs neither sortedness nor non-emptiness of the input, so it holds in
  particular for every time-sorted, non-empty list.
\<close>

theorem group_into_sessions_partition:
  assumes "timedelta_minutes gap_minutes = Inr threshold"
  shows "\<exists>sessions. group_into_sessions events gap_minutes = Inr sessions \<and>
     concat sessions = events \<and> [] \<notin> set sessions \<and>
     (\<forall>s \<in> set sessions. \<forall>i. Suc i < length s \<longrightarrow>
        timestamp_start (s ! Suc i) - timestamp_start (s ! i) \<le> threshold) \<and>
     (\<forall>k. Suc k < length sessions \<longrightarrow>
        threshold < timestamp_start (hd (sessions ! Suc k)) - timestamp_start (last (sessions ! k)))"
  using group_into_sessions_inv [OF assms, of events]
  by (auto simp: list_all_iff gaps_within_nth gaps_between_nth)

theorem group_into_sessions_partition_witness:
  "timedelta_minutes 60 = Inr 3600000000 \<and>
   group_into_sessions [sample_event ''a'' 32400000000 None, sample_event ''b'' 34200000000 None,
       sample_event ''c'' 41400000000 None] 60 =
     Inr [[sample_event ''a'' 32400000000 None, sample_event ''b'' 34200000000 None],
          [sample_event ''c'' 41400000000 None]]"
  using group_into_sessions_partition [of 60 3600000000
      "[sample_event ''a'' 32400000000 None, sample_event ''b'' 34200000000 None,
        sample_event ''c'' 41400000000 None]"]
  by (simp add: timedelta_minutes_def group_into_sessions_def sample_event_def)

text \<open>
  Claim C10.  Conservation does not depend on sortedness: for every list of events and every
  \<open>gap_minutes\<close>, whatever \<open>group_into_sessions\<close> returns is a list of non-empty
  sessions whose concatenation is the input list, with every event unchanged and in its
  place; and it does return whenever the threshold is a representable duration.
\<close>

theorem group_into_sessions_conserves:
  "(\<forall>sessions. group_into_sessions events gap_minutes = Inr sessions \<longrightarrow>
       concat sessions = events \<and> [] \<notin> set sessions) \<and>
   ((\<exists>threshold. timedelta_minutes gap_minutes = Inr threshold) \<longrightarrow>
       (\<exists>sessions. group_into_sessions events gap_minutes = Inr sessions))"
proof (cases "timedelta_minutes gap_minutes")
  case (Inr thr)
  from group_into_sessions_inv [OF Inr, of events] show ?thesis by auto
next
  case (Inl err)
  show ?thesis
  proof (cases events)
    case Nil
    then show ?thesis using Inl by (simp add: group_into_sessions_def)
  next
    case (Cons e0 rest)
    show ?thesis
    proof (cases rest)
      case Nil
      then show ?thesis using Inl Cons by (auto simp: group_into_sessions_def)
    next
      case (Cons e1 rest')
      then have "group_into_sessions events gap_minutes = Inl err"
        using Inl \<open>events = e0 # rest\<close> by (simp add: group_into_sessions_def)
      then show ?thesis using Inl by simp
    qed
  qed
qed

theorem group_into_sessions_conserves_witness:
  "group_into_sessions [sample_event ''b'' 34200000000 None, sample_event ''a'' 32400000000 None,
       sample_event ''c'' 41400000000 None] 60 =
     Inr [[sample_event ''b'' 34200000000 None, sample_event ''a'' 32400000000 None],
          [sample_event ''c'' 41400000000 None]] \<and>
   concat [[sample_event ''b'' 34200000000 None, sample_event ''a'' 32400000000 None],
          [sample_event ''c'' 41400000000 None]] =
     [sample_event ''b'' 34200000000 None, sample_event ''a'' 32400000000 None,
       sample_event ''c'' 41400000000 None]"
  using group_into_sessions_conserves [of
      "[sample_event ''b'' 34200000000 None, sample_event ''a'' 32400000000 None,
        sample_event ''c'' 41400000000 None]" 60]
  by (simp add: timedelta_minutes_def group_into_sessions_def sample_event_def)

text \<open>
  Claim C6.  The edge cases of the grouper: the empty list gives the empty list of sessions;
  a single event gives one session holding exactly that event; and with threshold zero an
  event begins a new session exactly when its start is later than its predecessor's: the
  first event of a session starts later than the last event of the session before, and
  inside a session no event starts later than its predecessor.  On time-sorted input, which
  is what the grouper expects, neighbours inside a session therefore share their start
  timestamp, so an event begins a new session exactly when its start differs from its
  predecessor's and events with identical starts are merged.
\<close>

theorem group_into_sessions_edge_cases:
  "group_into_sessions [] gap_minutes = Inr [] \<and>
   group_into_sessions [e] gap_minutes = Inr [[e]] \<and>
   (\<exists>sessions. group_into_sessions events 0 = Inr sessions \<and> concat sessions = events \<and>
      [] \<notin> set sessions \<and>
      (\<forall>k. Suc k < length sessions \<longrightarrow>
         timestamp_start (last (sessions ! k)) < timestamp_start (hd (sessions ! Suc k))) \<and>
      (\<forall>s \<in> set sessions. \<forall>i. Suc i < length s \<longrightarrow>
         timestamp_start (s ! Suc i) \<le> timestamp_start (s ! i)) \<and>
      (sorted (map timestamp_start events) \<longrightarrow>
         (\<forall>s \<in> set sessions. \<forall>i. Suc i < length s \<longrightarrow>
            timestamp_start (s ! Suc i) = timestamp_start (s ! i))))"
proof (intro conjI)
  show "group_into_sessions [] gap_minutes = Inr []"
    by (simp add: group_into_sessions_def)
  show "group_into_sessions [e] gap_minutes = Inr [[e]]"
    by (simp add: group_into_sessions_def)
  have td: "timedelta_minutes 0 = Inr 0" by (simp add: timedelta_minutes_def)
  from group_into_sessions_inv [OF td, of events]
  obtain sessions where h: "group_into_sessions events 0 = Inr sessions" "concat sessions = events"
    "[] \<notin> set sessions" "list_all (gaps_within 0) sessions" "gaps_between 0 sessions"
    by auto
  have later: "timestamp_start (last (sessions ! k)) < timestamp_start (hd (sessions ! Suc k))"
    if "Suc k < length sessions" for k
    using h(5) that by (auto simp: gaps_between_nth)
  have not_later: "timestamp_start (s ! Suc i) \<le> timestamp_start (s ! i)"
    if "s \<in> set sessions" "Suc i < length s" for s i
    using h(4) that by (auto simp: list_all_iff gaps_within_nth)
  have same: "timestamp_start (s ! Suc i) = timestamp_start (s ! i)"
    if srt: "sorted (map timestamp_start events)" and "s \<in> set sessions" "Suc i < length s" for s i
  proof -
    have "sorted (map timestamp_start s)"
      using sorted_concat_member [of timestamp_start sessions s] srt h(2) that(2) by simp
    then have "timestamp_start (s ! i) \<le> timestamp_start (s ! Suc i)"
      using that(3) sorted_nth_mono [of "map timestamp_start s" i "Suc i"] by simp
    then show ?thesis using not_later [OF that(2,3)] by simp
  qed
  show "\<exists>sessions. group_into_sessions events 0 = Inr sessions \<and> concat sessions = events \<and>
      [] \<notin> set sessions \<and>
      (\<forall>k. Suc k < length sessions \<longrightarrow>
         timestamp_start (last (sessions ! k)) < timestamp_start (hd (sessions ! Suc k))) \<and>
      (\<forall>s \<in> set sessions. \<forall>i. Suc i < length s \<longrightarrow>
         timestamp_start (s ! Suc i) \<le> timestamp_start (s ! i)) \<and>
      (sorted (map timestamp_start events) \<longrightarrow>
         (\<forall>s \<in> set sessions. \<forall>i. Suc i < length s \<longrightarrow>
            timestamp_start (s ! Suc i) = timestamp_start (s ! i)))"
    using h(1,2,3) later not_later same by blast
qed

theorem group_into_sessions_edge_cases_witness:
  "sorted (map timestamp_start [sample_event ''a'' 10 None, sample_event ''b'' 10 None,
       sample_event ''c'' 11 None]) \<and>
   group_into_sessions [sample_event ''a'' 10 None, sample_event ''b'' 10 None,
       sample_event ''c'' 11 None] 0 =
     Inr [[sample_event ''a'' 10 None, sample_event ''b'' 10 None], [sample_event ''c'' 11 None]]"
  using group_into_sessions_edge_cases [of 0 "sample_event ''a'' 10 None"
      "[sample_event ''a'' 10 None, sample_event ''b'' 10 None, sample_event ''c'' 11 None]"]
  by (simp add: timedelta_minutes_def group_into_sessions_def sample_event_def)


section \<open>Properties of the day filter\<close>

text \<open>
  Claim C5.  \<open>filter_events_for_day\<close> returns exactly the events dated on the target day
  (as a multiset, hence with the same multiplicities and the same length as the number of
  matching input events), sorted ascending by start timestamp, and stably: for every
  timestamp, the events carrying it appear in the result in their input order.  The result
  is a subset of the input.
\<close>

theorem filter_events_for_day_correct:
  "mset (filter_events_for_day events target_date) =
      filter_mset (\<lambda>e. date_of (timestamp_start e) = target_date) (mset events) \<and>
   sorted (map timestamp_start (filter_events_for_day events target_date)) \<and>
   (\<forall>t. filter (\<lambda>e. timestamp_start e = t) (filter_events_for_day events target_date) =
        filter (\<lambda>e. timestamp_start e = t)
          (filter (\<lambda>e. date_of (timestamp_start e) = target_date) events)) \<and>
   set (filter_events_for_day events target_date) =
      {e \<in> set events. date_of (timestamp_start e) = target_date} \<and>
   set (filter_events_for_day events target_date) \<subseteq> set events \<and>
   length (filter_events_for_day events target_date) =
      length (filter (\<lambda>e. date_of (timestamp_start e) = target_date) events)"
  by (auto simp: filter_events_for_day_def sort_key_stable)

theorem filter_events_for_day_correct_witness:
  "filter_events_for_day [sample_event ''c'' 86400000000 None, sample_event ''b'' 7 None,
       sample_event ''a'' 7 None, sample_event ''d'' 3 None] 0 =
     [sample_event ''d'' 3 None, sample_event ''b'' 7 None, sample_event ''a'' 7 None]"
  using filter_events_for_day_correct [of
      "[sample_event ''c'' 86400000000 None, sample_event ''b'' 7 None,
       sample_event ''a'' 7 None, sample_event ''d'' 3 None]" 0]
  by (simp add: filter_events_for_day_def date_of_def sample_event_def)


section \<open>Properties of the sanitizer\<close>

subsection \<open>No match anywhere: re.sub is the identity\<close>

lemma re_sub_scan_no_match:
  "\<not> re_search_from U pat prev s \<Longrightarrow> re_sub_scan U pat repl 0 prev s = s"
proof (induction s arbitrary: prev)
  case Nil then show ?case by simp
next
  case (Cons c cs)
  then have "run U pat prev (c # cs) = []" and "\<not> re_search_from U pat (Some c) cs" by simp_all
  then show ?case using Cons.IH by simp
qed

lemma re_sub_no_match: "\<not> re_search U pat s \<Longrightarrow> re_sub U pat repl s = s"
  unfolding re_sub_def re_search_def by (rule re_sub_scan_no_match)

subsection \<open>Text without sensitive patterns passes the removals unchanged\<close>

lemma no_sensitive_removals:
  assumes "no_sensitive U s"
  shows "re_sub U (pat_bpm U) [] s = s" "re_sub U (pat_steps U) [] s = s"
    "re_sub U (pat_vital_signs U) [] s = s"
    "foldl (remove_term U) s FORBIDDEN_HEALTH_TERMS = s"
proof -
  show "re_sub U (pat_bpm U) [] s = s" "re_sub U (pat_steps U) [] s = s"
    "re_sub U (pat_vital_signs U) [] s = s"
    using assms by (simp_all add: no_sensitive_def re_sub_no_match)
  have "list_all (\<lambda>term. \<not> contains term (lower U s)) ts \<Longrightarrow> foldl (remove_term U) s ts = s" for ts
    by (induction ts) (simp_all add: remove_term_def)
  then show "foldl (remove_term U) s FORBIDDEN_HEALTH_TERMS = s"
    using assms by (simp add: no_sensitive_def)
qed

lemma sanitize_no_sensitive:
  assumes "no_sensitive U s"
  shows "sanitize_text U s = strip U (re_sub U (pat_spaces U) (lit '' '') s)"
proof (cases "s = []")
  case True
  then show ?thesis by (simp add: sanitize_text_def strip_def re_sub_def)
next
  case False
  then show ?thesis
    by (simp only: sanitize_text_def if_False Let_def no_sensitive_removals [OF assms])
qed

subsection \<open>Whitespace runs\<close>

lemma run_at_least_some:
  "n \<le> length (takeWhile P s) \<Longrightarrow> run U [AtLeast n P] p s \<noteq> []"
proof (induction s arbitrary: n p)
  case Nil then show ?case by simp
next
  case (Cons c cs)
  show ?case
  proof (cases "P c")
    case False then show ?thesis using Cons.prems by simp
  next
    case True
    then have "n - 1 \<le> length (takeWhile P cs)" using Cons.prems by simp
    from Cons.IH [OF this] show ?thesis using True by simp
  qed
qed

lemma run_at_least_head:
  "run U [AtLeast n P] p s = m # ms \<Longrightarrow> m = length (takeWhile P s) \<and> n \<le> m"
proof (induction s arbitrary: n p m ms)
  case Nil then show ?case by (auto split: if_splits)
next
  case (Cons c cs)
  show ?case
  proof (cases "P c")
    case False then show ?thesis using Cons.prems by (auto split: if_splits)
  next
    case True
    show ?thesis
    proof (cases "run U [AtLeast (n - 1) P] (Some c) cs")
      case Nil
      then have "\<not> n - 1 \<le> length (takeWhile P cs)" using run_at_least_some by blast
      then show ?thesis using Cons.prems True Nil by (auto split: if_splits)
    next
      case (Cons m' ms')
      from Cons.IH [OF this] have "m' = length (takeWhile P cs)" "n - 1 \<le> m'" by auto
      then show ?thesis using Cons.prems True Cons by (auto split: if_splits)
    qed
  qed
qed

lemma re_sub_scan_skip:
  "k \<le> length s \<Longrightarrow>
   re_sub_scan U pat repl k p s =
     re_sub_scan U pat repl 0 (if k = 0 then p else Some (s ! (k - 1))) (drop k s)"
proof (induction s arbitrary: k p)
  case Nil then show ?case by simp
next
  case (Cons c cs)
  show ?case
  proof (cases k)
    case 0 then show ?thesis by simp
  next
    case (Suc j)
    then have "j \<le> length cs" using Cons.prems by simp
    from Cons.IH [OF this, of "Some c"] show ?thesis using Suc by (cases j) auto
  qed
qed

lemma no_double_space_drop: "no_double_space U s \<Longrightarrow> no_double_space U (drop k s)"
proof (induction U s arbitrary: k rule: no_double_space.induct)
  case (1 U a b cs)
  show ?case
  proof (cases k)
    case 0 then show ?thesis using 1 by simp
  next
    case (Suc j) then show ?thesis using 1 by simp
  qed
qed (auto simp: drop_Cons split: nat.splits)

lemma no_double_space_no_search:
  "no_double_space U s \<Longrightarrow> \<not> re_search_from U (pat_spaces U) p s"
proof (induction s arbitrary: p)
  case Nil then show ?case by (simp add: pat_spaces_def)
next
  case (Cons c cs)
  have "run U (pat_spaces U) p (c # cs) = []"
  proof (rule ccontr)
    assume "run U (pat_spaces U) p (c # cs) \<noteq> []"
    then obtain m ms where "run U [AtLeast 2 (is_space U)] p (c # cs) = m # ms"
      by (cases "run U (pat_spaces U) p (c # cs)") (auto simp: pat_spaces_def)
    from run_at_least_head [OF this]
    have two: "2 \<le> length (takeWhile (is_space U) (c # cs))" by simp
    then obtain b bs where d: "cs = b # bs" by (cases cs) (auto split: if_splits)
    with two have "is_space U c \<and> is_space U b" by (auto split: if_splits)
    then show False using Cons.prems d by simp
  qed
  moreover have "no_double_space U cs" using Cons.prems by (cases cs) auto
  ultimately show ?case using Cons.IH by simp
qed

lemma collapse_tidy: "no_double_space U s \<Longrightarrow> re_sub U (pat_spaces U) repl s = s"
  unfolding re_sub_def by (rule re_sub_scan_no_match) (rule no_double_space_no_search)

lemma strip_tidy: "tidy U s \<Longrightarrow> strip U s = s"
proof (cases s)
  case Nil then show ?thesis by (simp add: strip_def)
next
  case (Cons c cs)
  assume "tidy U s"
  then have h: "\<not> is_space U (hd s)" and l: "\<not> is_space U (last s)"
    using Cons by (auto simp: tidy_def)
  have "dropWhile (is_space U) s = s" using h Cons by simp
  moreover have "dropWhile (is_space U) (rev s) = rev s"
  proof (cases "rev s")
    case Nil then show ?thesis by simp
  next
    case (Cons a as)
    then have "a = last s" using hd_rev [of s] \<open>s = c # cs\<close> by (metis list.sel(1))
    then have "\<not> is_space U a" using l by simp
    then have "dropWhile (is_space U) (a # as) = a # as" by simp
    then show ?thesis using Cons by simp
  qed
  ultimately show ?thesis by (simp add: strip_def)
qed

subsection \<open>The output of the whitespace collapse has no run of two\<close>

lemma collapse_step:
  "re_sub_scan U (pat_spaces U) repl 0 p (c # cs) =
     (if 2 \<le> length (takeWhile (is_space U) (c # cs))
      then repl @ re_sub_scan U (pat_spaces U) repl 0
             (Some (last (takeWhile (is_space U) (c # cs))))
             (dropWhile (is_space U) (c # cs))
      else c # re_sub_scan U (pat_spaces U) repl 0 (Some c) cs)"
proof (cases "2 \<le> length (takeWhile (is_space U) (c # cs))")
  case True
  then have "run U [AtLeast 2 (is_space U)] p (c # cs) \<noteq> []" by (rule run_at_least_some)
  then obtain m ms where r: "run U [AtLeast 2 (is_space U)] p (c # cs) = m # ms"
    by (cases "run U [AtLeast 2 (is_space U)] p (c # cs)") auto
  from run_at_least_head [OF r] have m: "m = length (takeWhile (is_space U) (c # cs))" by simp
  have "2 \<le> m" using True m by (simp only:)
  then obtain n where n: "m = Suc n" by (cases m) auto
  have sp: "is_space U c" using True by (auto split: if_splits)
  have nl: "n = length (takeWhile (is_space U) cs)" using m n sp by simp
  then have le: "n \<le> length cs" by (simp add: length_takeWhile_le)
  have dr: "drop n cs = dropWhile (is_space U) cs"
    using nl by (metis append_eq_conv_conj takeWhile_dropWhile_id)
  have pv: "(if n = 0 then Some c else Some (cs ! (n - 1))) =
      Some (last (takeWhile (is_space U) (c # cs)))"
  proof (cases n)
    case 0
    then have "takeWhile (is_space U) cs = []" using nl by simp
    then show ?thesis using 0 sp by simp
  next
    case (Suc j)
    then have ne: "takeWhile (is_space U) cs \<noteq> []" using nl by auto
    have lj: "length (takeWhile (is_space U) cs) = Suc j" using nl Suc by simp
    have "last (takeWhile (is_space U) cs) = takeWhile (is_space U) cs ! j"
      using ne by (simp add: last_conv_nth lj)
    also have "\<dots> = cs ! j" by (simp add: takeWhile_nth lj)
    finally show ?thesis using Suc sp ne by simp
  qed
  have "re_sub_scan U (pat_spaces U) repl 0 p (c # cs) =
      repl @ re_sub_scan U (pat_spaces U) repl n (Some c) cs"
    using r n by (simp add: pat_spaces_def)
  also have "re_sub_scan U (pat_spaces U) repl n (Some c) cs =
      re_sub_scan U (pat_spaces U) repl 0 (if n = 0 then Some c else Some (cs ! (n - 1))) (drop n cs)"
    using re_sub_scan_skip [OF le] by simp
  finally show ?thesis using True pv dr sp by simp
next
  case False
  have "run U [AtLeast 2 (is_space U)] p (c # cs) = []"
  proof (cases "run U [AtLeast 2 (is_space U)] p (c # cs)")
    case Nil then show ?thesis .
  next
    case (Cons m ms)
    from run_at_least_head [OF this] False show ?thesis by simp
  qed
  then show ?thesis using False by (simp add: pat_spaces_def)
qed

lemma collapse_head:
  assumes "re_sub_scan U (pat_spaces U) [x] 0 p s = a # as" and "is_space U a"
  shows "\<exists>c cs. s = c # cs \<and> is_space U c"
proof (cases s)
  case Nil
  then show ?thesis using assms(1) by simp
next
  case (Cons c cs)
  show ?thesis
  proof (cases "2 \<le> length (takeWhile (is_space U) (c # cs))")
    case True
    then have "is_space U c" by (auto split: if_splits)
    then show ?thesis using Cons by simp
  next
    case False
    have "re_sub_scan U (pat_spaces U) [x] 0 p (c # cs) =
        c # re_sub_scan U (pat_spaces U) [x] 0 (Some c) cs"
      by (simp only: collapse_step False if_False)
    then have "a = c" using assms(1) Cons by (simp only: list.inject)
    then show ?thesis using assms(2) Cons by simp
  qed
qed

lemma no_double_space_Cons:
  "no_double_space U (a # s) =
     (no_double_space U s \<and>
      (is_space U a \<longrightarrow> (case s of [] \<Rightarrow> True | b # _ \<Rightarrow> \<not> is_space U b)))"
  by (cases s) auto

lemma collapse_no_double_space:
  "no_double_space U (re_sub_scan U (pat_spaces U) [x] 0 p s)"
proof (induction "length s" arbitrary: s p rule: less_induct)
  case less
  show ?case
  proof (cases s)
    case Nil then show ?thesis by simp
  next
    case (Cons c cs)
    show ?thesis
    proof (cases "2 \<le> length (takeWhile (is_space U) (c # cs))")
      case True
      let ?rest = "dropWhile (is_space U) (c # cs)"
      let ?p = "Some (last (takeWhile (is_space U) (c # cs)))"
      have sp: "is_space U c" using True by (auto split: if_splits)
      have len: "length ?rest < length s" using Cons sp
        by (simp add: length_dropWhile_le le_imp_less_Suc)
      have ih: "no_double_space U (re_sub_scan U (pat_spaces U) [x] 0 ?p ?rest)"
        using less [OF len] .
      have hd: "case re_sub_scan U (pat_spaces U) [x] 0 ?p ?rest of
                  [] \<Rightarrow> True | b # _ \<Rightarrow> \<not> is_space U b"
      proof (cases "re_sub_scan U (pat_spaces U) [x] 0 ?p ?rest")
        case Nil then show ?thesis by simp
      next
        case (Cons b bs)
        have "\<not> is_space U b"
        proof
          assume "is_space U b"
          from collapse_head [OF Cons this] obtain d ds where d: "?rest = d # ds" "is_space U d"
            by blast
          moreover have "\<not> is_space U (hd ?rest)"
            using d(1) by (metis hd_dropWhile list.distinct(1))
          ultimately show False by simp
        qed
        then show ?thesis using Cons by simp
      qed
      have "re_sub_scan U (pat_spaces U) [x] 0 p (c # cs) =
          x # re_sub_scan U (pat_spaces U) [x] 0 ?p ?rest"
        using True by (simp only: collapse_step if_True append_Cons append_Nil)
      then show ?thesis using Cons ih hd by (simp only: no_double_space_Cons simp_thms)
    next
      case False
      have len: "length cs < length s" using Cons by simp
      have ih: "no_double_space U (re_sub_scan U (pat_spaces U) [x] 0 (Some c) cs)"
        using less [OF len] .
      have hd: "is_space U c \<longrightarrow>
          (case re_sub_scan U (pat_spaces U) [x] 0 (Some c) cs of
             [] \<Rightarrow> True | b # _ \<Rightarrow> \<not> is_space U b)"
      proof
        assume sp: "is_space U c"
        show "case re_sub_scan U (pat_spaces U) [x] 0 (Some c) cs of
                [] \<Rightarrow> True | b # _ \<Rightarrow> \<not> is_space U b"
        proof (cases "re_sub_scan U (pat_spaces U) [x] 0 (Some c) cs")
          case Nil then show ?thesis by simp
        next
          case (Cons b bs)
          have "\<not> is_space U b"
          proof
            assume "is_space U b"
            from collapse_head [OF Cons this] obtain d ds where "cs = d # ds" "is_space U d"
              by blast
            then show False using False sp by simp
          qed
          then show ?thesis using Cons by simp
        qed
      qed
      have "re_sub_scan U (pat_spaces U) [x] 0 p (c # cs) =
          c # re_sub_scan U (pat_spaces U) [x] 0 (Some c) cs"
        using False by (simp only: collapse_step if_False)
      then show ?thesis using Cons ih hd by (simp only: no_double_space_Cons simp_thms)
    qed
  qed
qed

subsection \<open>Strip\<close>

lemma no_double_space_dropWhile: "no_double_space U s \<Longrightarrow> no_double_space U (dropWhile P s)"
  by (metis dropWhile_eq_drop no_double_space_drop)

lemma no_double_space_append:
  "no_double_space U (xs @ ys) \<Longrightarrow> no_double_space U xs"
  by (induction U xs rule: no_double_space.induct) auto

lemma rstrip_prefix: "\<exists>zs. s = rev (dropWhile P (rev s)) @ zs"
  by (metis rev_append rev_rev_ident takeWhile_dropWhile_id)

lemma strip_is_tidy:
  assumes "no_double_space U s" shows "tidy U (strip U s)"
proof -
  let ?l = "dropWhile (is_space U) s"
  let ?r = "rev (dropWhile (is_space U) (rev ?l))"
  have nl: "no_double_space U ?l" using assms by (rule no_double_space_dropWhile)
  obtain zs where zs: "?l = ?r @ zs" using rstrip_prefix by blast
  have nr: "no_double_space U ?r" using nl zs no_double_space_append by metis
  have ends: "\<not> is_space U (hd ?r) \<and> \<not> is_space U (last ?r)" if ne: "?r \<noteq> []"
  proof
    have "hd ?r = hd ?l" using zs ne by (metis hd_append2)
    moreover have "?l \<noteq> []" using zs ne by (metis Nil_is_append_conv)
    ultimately show "\<not> is_space U (hd ?r)" by (metis hd_dropWhile)
    have "last ?r = hd (dropWhile (is_space U) (rev ?l))" using ne by (simp add: last_rev)
    then show "\<not> is_space U (last ?r)" using ne by (metis hd_dropWhile rev_is_Nil_conv)
  qed
  show ?thesis unfolding tidy_def strip_def using nr ends by blast
qed

lemma sanitize_is_tidy: "tidy U (sanitize_text U s)"
proof (cases "s = []")
  case True then show ?thesis by (simp add: sanitize_text_def tidy_def)
next
  case False
  have "lit '' '' = [32]" by (simp add: lit_def)
  then show ?thesis using False
    by (simp add: sanitize_text_def Let_def re_sub_def strip_is_tidy collapse_no_double_space)
qed

lemma tidy_fixed: "tidy U s \<Longrightarrow> strip U (re_sub U (pat_spaces U) repl s) = s"
  by (simp add: collapse_tidy strip_tidy tidy_def)

lemma sanitize_fixed: "no_sensitive U s \<Longrightarrow> tidy U s \<Longrightarrow> sanitize_text U s = s"
  by (simp add: sanitize_no_sensitive tidy_fixed)

subsection \<open>Joining tidy pieces\<close>



subsection \<open>Idempotence\<close>

text \<open>
  Claim C2 states that sanitizing twice is the same as sanitizing once, for every text.  The
  removals run once each, in a fixed order, and the whitespace collapse comes last, so a
  removal or the collapse can assemble a pattern that was not there before:
  \<open>heart  rate\<close>, with two spaces, holds no forbidden term and becomes \<open>heart rate\<close>,
  which a second pass deletes.
\<close>

theorem sanitize_text_not_idempotent:
  "sanitize_text ascii_tables (sanitize_text ascii_tables (lit ''heart  rate'')) \<noteq>
   sanitize_text ascii_tables (lit ''heart  rate'')"
proof -
  have a: "sanitize_text ascii_tables (lit ''heart  rate'') = lit ''heart rate''" by code_simp
  have b: "sanitize_text ascii_tables (lit ''heart rate'') = []" by code_simp
  have c: "lit ''heart rate'' \<noteq> []" by (simp add: lit_def)
  show ?thesis unfolding a b using c by simp
qed

text \<open>
  Claim C2, amended.  For every text whose sanitized form holds no sensitive pattern any
  more (none of the three regular expressions matches it and no forbidden term occurs in
  its lower-cased form), sanitizing the sanitized form again changes nothing.
\<close>

theorem sanitize_text_idempotent_when_clean:
  assumes "no_sensitive U (sanitize_text U s)"
  shows "sanitize_text U (sanitize_text U s) = sanitize_text U s"
  using assms by (rule sanitize_fixed) (rule sanitize_is_tidy)

theorem sanitize_text_idempotent_when_clean_witness:
  "no_sensitive ascii_tables (sanitize_text ascii_tables
      (lit ''Morning health check | HR ~65 bpm | 2500 steps | stress low'')) \<and>
   sanitize_text ascii_tables (lit ''Morning health check | HR ~65 bpm | 2500 steps | stress low'') =
     lit ''Morning health check | ~ | | low'' \<and>
   sanitize_text ascii_tables (sanitize_text ascii_tables
      (lit ''Morning health check | HR ~65 bpm | 2500 steps | stress low'')) =
     lit ''Morning health check | ~ | | low''"
proof -
  have v: "sanitize_text ascii_tables
      (lit ''Morning health check | HR ~65 bpm | 2500 steps | stress low'') =
     lit ''Morning health check | ~ | | low''" by code_simp
  have "no_sensitive ascii_tables (lit ''Morning health check | ~ | | low'')" by code_simp
  then have n: "no_sensitive ascii_tables (sanitize_text ascii_tables
      (lit ''Morning health check | HR ~65 bpm | 2500 steps | stress low''))"
    by (simp only: v)
  from sanitize_text_idempotent_when_clean [OF n] n v show ?thesis by (simp only: simp_thms)
qed

subsection \<open>Text without sensitive patterns\<close>

text \<open>
  Claim C8 states that a text holding none of the sensitive patterns is returned unchanged.
  The last two steps of the sanitizer, the collapse of whitespace runs and the trim, apply
  to every text: \<open>a  b\<close>, with two spaces, comes back with one.
\<close>

theorem sanitize_text_alters_clean_text:
  "no_sensitive ascii_tables (lit ''a  b'') \<and>
   sanitize_text ascii_tables (lit ''a  b'') \<noteq> lit ''a  b''"
proof -
  have "no_sensitive ascii_tables (lit ''a  b'')" by code_simp
  moreover have "sanitize_text ascii_tables (lit ''a  b'') = lit ''a b''" by code_simp
  moreover have "lit ''a b'' \<noteq> lit ''a  b''" by (simp add: lit_def)
  ultimately show ?thesis by simp
qed

text \<open>
  Claim C8, amended.  For every text that holds none of the sensitive patterns (no numeric
  \<open>bpm\<close> or \<open>steps\<close> mention, no \<open>vital signs\<close> clause, no forbidden term), the
  sanitizer does nothing but collapse each run of two or more whitespace characters into one
  space and trim the ends; so such a text is returned unchanged when it has no two adjacent
  whitespace characters and no whitespace at either end.
\<close>

theorem sanitize_text_clean_text:
  assumes "no_sensitive U s"
  shows "sanitize_text U s = strip U (re_sub U (pat_spaces U) (lit '' '') s) \<and>
         (tidy U s \<longrightarrow> sanitize_text U s = s)"
  using sanitize_no_sensitive [OF assms] sanitize_fixed [OF assms] by simp

theorem sanitize_text_clean_text_witness:
  "no_sensitive ascii_tables (lit ''Lunch with Anna'') \<and> tidy ascii_tables (lit ''Lunch with Anna'') \<and>
   sanitize_text ascii_tables (lit ''Lunch with Anna'') = lit ''Lunch with Anna''"
proof -
  have n: "no_sensitive ascii_tables (lit ''Lunch with Anna'')" by code_simp
  have t: "tidy ascii_tables (lit ''Lunch with Anna'')" by code_simp
  from sanitize_text_clean_text [OF n] t
  have "sanitize_text ascii_tables (lit ''Lunch with Anna'') = lit ''Lunch with Anna''" by blast
  then show ?thesis using n t by blast
qed


section \<open>Properties of the session summarizer\<close>

lemma reversed_iteration_ok: "is_set_iteration reversed_iteration"
  by (simp add: is_set_iteration_def reversed_iteration_def)

lemma first_appearance_set: "set (first_appearance xs) = set xs"
  by (induction xs rule: first_appearance.induct) auto

lemma first_appearance_distinct: "distinct (first_appearance xs)"
  by (induction xs rule: first_appearance.induct) (auto simp: first_appearance_set)

lemma first_appearance_ok: "is_set_iteration first_appearance"
  by (simp add: is_set_iteration_def first_appearance_set first_appearance_distinct)

lemma session_locations_Cons:
  "session_locations (e # es) =
     (case location e of None \<Rightarrow> [] | Some l \<Rightarrow> if l = [] then [] else [l]) @ session_locations es"
  by (simp add: session_locations_def)

lemma session_locations_set:
  "set (session_locations session) = {l. l \<noteq> [] \<and> (\<exists>e \<in> set session. location e = Some l)}"
proof (induction session)
  case Nil then show ?case by (simp add: session_locations_def)
next
  case (Cons e es)
  show ?case
  proof (cases "location e")
    case None
    then show ?thesis using Cons by (auto simp: session_locations_Cons)
  next
    case (Some l)
    then show ?thesis using Cons by (cases "l = []") (auto simp: session_locations_Cons)
  qed
qed

text \<open>
  Claim C3 states that the summary lists the locations, and the people, in order of first
  appearance.  The code builds them with \<open>list(set)\<close>, whose order is not the insertion
  order: under an iteration order that yields the later insertion first, a session with
  locations \<open>Home, Home, Clinic\<close> is summarized to \<open>Clinic, Home\<close>.
\<close>

theorem summarize_session_order_counterexample:
  "is_set_iteration reversed_iteration \<and>
   session_locations [sample_event ''a'' 1 (Some ''Home''), sample_event ''b'' 2 (Some ''Home''),
       sample_event ''c'' 3 (Some ''Clinic'')] = map lit [''Home'', ''Home'', ''Clinic''] \<and>
   map_sum id sum_locations (summarize_session reversed_iteration
      [sample_event ''a'' 1 (Some ''Home''), sample_event ''b'' 2 (Some ''Home''),
       sample_event ''c'' 3 (Some ''Clinic'')]) = Inr (map lit [''Clinic'', ''Home''])"
  by (simp add: reversed_iteration_ok summarize_session_def session_locations_def
      sample_event_def reversed_iteration_def lit_def)

text \<open>
  Claim C3, amended.  For every non-empty session and every iteration order of sets, the
  summary's locations are a duplicate-free list of exactly the non-empty location fields of
  the events, and its people a duplicate-free list of exactly the events' people entries:
  each is a permutation of the first-appearance list, in an order the code does not fix.
  When the set happens to iterate in insertion order, the lists are the first-appearance
  lists, and \<open>Home, Home, Clinic\<close> gives \<open>Home, Clinic\<close>.
\<close>

theorem summarize_session_dedup:
  assumes "is_set_iteration set_iter" and "session \<noteq> []"
  shows "\<exists>s. summarize_session set_iter session = Inr s \<and>
     distinct (sum_locations s) \<and>
     set (sum_locations s) = {l. l \<noteq> [] \<and> (\<exists>e \<in> set session. location e = Some l)} \<and>
     mset (sum_locations s) = mset (first_appearance (session_locations session)) \<and>
     distinct (sum_people s) \<and>
     set (sum_people s) = (\<Union>e \<in> set session. set (people e)) \<and>
     mset (sum_people s) = mset (first_appearance (session_people session)) \<and>
     (set_iter = first_appearance \<longrightarrow>
        sum_locations s = first_appearance (session_locations session) \<and>
        sum_people s = first_appearance (session_people session))"
proof -
  obtain e0 rest where c: "session = e0 # rest" using assms(2) by (cases session) auto
  have d: "distinct (set_iter xs)" and st: "set (set_iter xs) = set xs" for xs
    using assms(1) by (auto simp: is_set_iteration_def)
  have m: "mset (set_iter xs) = mset (first_appearance xs)" for xs
    using d st first_appearance_distinct first_appearance_set
    by (metis set_eq_iff_mset_eq_distinct)
  have p: "set (session_people session) = (\<Union>e \<in> set session. set (people e))"
    by (simp add: session_people_def)
  show ?thesis
    using c d st m p session_locations_set [of session]
    by (simp add: summarize_session_def)
qed

theorem summarize_session_dedup_witness:
  "is_set_iteration first_appearance \<and>
   map_sum id sum_locations (summarize_session first_appearance
      [sample_event ''a'' 1 (Some ''Home''), sample_event ''b'' 2 (Some ''Home''),
       sample_event ''c'' 3 (Some ''Clinic'')]) = Inr (map lit [''Home'', ''Clinic''])"
  using summarize_session_dedup [OF first_appearance_ok, of
      "[sample_event ''a'' 1 (Some ''Home''), sample_event ''b'' 2 (Some ''Home''),
       sample_event ''c'' 3 (Some ''Clinic'')]"]
  by (simp add: first_appearance_ok summarize_session_def session_locations_def sample_event_def
      lit_def)

text \<open>
  Claim C7 states that an empty session is rejected with an error of the InvalidInput kind,
  a distinguished precondition-violation error.  The code has no check of its argument and
  no error of its own: what ends the call is the \<open>IndexError\<close> that the list access
  \<open>session[0]\<close> raises.
\<close>

theorem summarize_session_empty_counterexample:
  "summarize_session first_appearance [] = Inl IndexError \<and>
   summarize_session first_appearance [] \<noteq> Inl InvalidInput"
  by (simp add: summarize_session_def)

text \<open>
  Claim C7, amended.  On the empty session \<open>summarize_session\<close> fails with the
  \<open>IndexError\<close> of \<open>session[0]\<close>, and this is its only failure: on every non-empty
  session it returns a summary whose start is the first event's start and whose end is the
  last event's end when present, else the last event's start.
\<close>

theorem summarize_session_errors:
  "summarize_session set_iter [] = Inl IndexError \<and>
   ((\<exists>err. summarize_session set_iter session = Inl err) \<longleftrightarrow> session = []) \<and>
   (session \<noteq> [] \<longrightarrow>
      (\<exists>s. summarize_session set_iter session = Inr s \<and>
           sum_start s = timestamp_start (hd session) \<and>
           sum_end s = (case timestamp_end (last session) of
                          Some t \<Rightarrow> t | None \<Rightarrow> timestamp_start (last session))))"
  by (cases session) (auto simp: summarize_session_def)

theorem summarize_session_errors_witness:
  "map_sum id (\<lambda>s. (sum_start s, sum_end s))
     (summarize_session first_appearance
        [sample_event ''a'' 1 None, (sample_event ''b'' 2 None)\<lparr>timestamp_end := Some 5\<rparr>]) = Inr (1, 5) \<and>
   map_sum id (\<lambda>s. (sum_start s, sum_end s))
     (summarize_session first_appearance [sample_event ''a'' 1 None]) = Inr (1, 1)"
  using summarize_session_errors [of first_appearance
        "[sample_event ''a'' 1 None, (sample_event ''b'' 2 None)\<lparr>timestamp_end := Some 5\<rparr>]"]
  by (simp add: summarize_session_def sample_event_def)


section \<open>Properties of the report generation\<close>







subsection \<open>Titles reach the narrative through the sanitizer only\<close>











section \<open>Properties of the pipeline\<close>

lemma lit_Cons: "lit (c # cs) = of_char c # lit cs"
  by (simp add: lit_def)

lemma narrative_starts_with_O:
  "\<exists>rest. fallback_narrative U session_summaries target_date_str = 79 # rest"
proof (cases "session_summaries = []")
  case True
  have "fallback_narrative U session_summaries target_date_str =
      lit ''Only a few small moments were recorded on '' @ target_date_str @
        lit '', but it was still your day, shaped by your own rhythm and choices.''"
    unfolding fallback_narrative_def using True by (simp only: simp_thms if_True)
  moreover have "lit ''Only a few small moments were recorded on '' =
      79 # lit ''nly a few small moments were recorded on ''"
    by (simp add: lit_def)
  ultimately show ?thesis by (simp only: append_Cons) blast
next
  case False
  define body where "body = join (lit '' '') (map (moment_sentence U) (take 4 session_summaries))"
  define closing where "closing = lit ''Even though these notes do not capture every detail, '' @
                      lit ''they still trace a gentle outline of how you moved through your day.''"
  have "fallback_narrative U session_summaries target_date_str =
      (lit ''On '' @ target_date_str @ lit '', a few key moments from your day were recorded.'') @
      lit '' '' @ body @ lit [CHR 0x0A, CHR 0x0A] @ closing"
    unfolding fallback_narrative_def Let_def body_def closing_def
    using False by (simp only: if_False)
  moreover have "lit ''On '' = 79 # lit ''n ''" by (simp add: lit_def)
  ultimately show ?thesis by (simp only: append_Cons) blast
qed

text \<open>
  Claim C9.  When no event falls on the target day, \<open>run_engine_for_date\<close> returns a
  result, whatever the gap threshold and the set iteration order are (neither the grouper
  nor the summarizer is consulted): the counts of events and of sessions are zero and the
  story is the message that no events were found, which is not empty and differs from every
  narrative the generator produces.  The command line likewise ends without an error, its
  last printed line being its own message that no events were found.
\<close>

theorem run_engine_for_date_no_events:
  assumes "filter_events_for_day (concat (map snd events_by_source)) target_date = []"
  shows "run_engine_for_date U isoformat set_iter events_by_source target_date gap_minutes =
           Inr \<lparr> res_target_date = target_date,
                 res_total_events = 0,
                 res_num_sessions = 0,
                 res_memory_story =
                   lit ''No events were found for '' @ isoformat target_date @
                   lit ''. There is nothing to reconstruct for this day.'',
                 res_caregiver_summary =
                   lit ''- No specific activities were recorded for this date.'' @ lit [CHR 0x0A] @
                   lit ''- Continue gentle check-ins according to the usual routine.'',
                 res_per_source_counts = map (\<lambda>(k, v). (k, length v)) events_by_source \<rparr> \<and>
         lit ''No events were found for '' @ isoformat target_date @
            lit ''. There is nothing to reconstruct for this day.'' \<noteq> [] \<and>
         (\<forall>session_summaries.
            lit ''No events were found for '' @ isoformat target_date @
            lit ''. There is nothing to reconstruct for this day.'' \<noteq>
            fallback_narrative U session_summaries (isoformat target_date)) \<and>
         snd (main_cli U isoformat set_iter events_by_source target_date data_dir gap_minutes) = None \<and>
         last (fst (main_cli U isoformat set_iter events_by_source target_date data_dir gap_minutes)) =
           lit [CHR 0x0A] @
           lit ''No events found for this date. Nothing to send to the story generator.''"
proof (intro conjI allI)
  have n: "lit ''No events were found for '' = 78 # lit ''o events were found for ''"
    by (simp add: lit_def)
  show "run_engine_for_date U isoformat set_iter events_by_source target_date gap_minutes =
           Inr \<lparr> res_target_date = target_date,
                 res_total_events = 0,
                 res_num_sessions = 0,
                 res_memory_story =
                   lit ''No events were found for '' @ isoformat target_date @
                   lit ''. There is nothing to reconstruct for this day.'',
                 res_caregiver_summary =
                   lit ''- No specific activities were recorded for this date.'' @ lit [CHR 0x0A] @
                   lit ''- Continue gentle check-ins according to the usual routine.'',
                 res_per_source_counts = map (\<lambda>(k, v). (k, length v)) events_by_source \<rparr>"
    unfolding run_engine_for_date_def Let_def using assms by (simp only: simp_thms if_True)
  show "lit ''No events were found for '' @ isoformat target_date @
            lit ''. There is nothing to reconstruct for this day.'' \<noteq> []"
    by (simp only: n append_Cons list.distinct not_False_eq_True)
  show "snd (main_cli U isoformat set_iter events_by_source target_date data_dir gap_minutes) = None"
    unfolding main_cli_def Let_def using assms by (simp only: simp_thms if_True snd_conv)
  show "last (fst (main_cli U isoformat set_iter events_by_source target_date data_dir gap_minutes)) =
           lit [CHR 0x0A] @
           lit ''No events found for this date. Nothing to send to the story generator.''"
    unfolding main_cli_def Let_def using assms by (simp only: simp_thms if_True fst_conv last_snoc)
  fix session_summaries
  obtain rest where r: "fallback_narrative U session_summaries (isoformat target_date) = 79 # rest"
    using narrative_starts_with_O by blast
  have "(78::nat) \<noteq> 79" by simp
  then show "lit ''No events were found for '' @ isoformat target_date @
            lit ''. There is nothing to reconstruct for this day.'' \<noteq>
            fallback_narrative U session_summaries (isoformat target_date)"
    unfolding r by (simp only: n append_Cons list.inject simp_thms not_False_eq_True)
qed

theorem run_engine_for_date_no_events_witness:
  "filter_events_for_day (concat (map snd
       [(lit ''Calendar'', [sample_event ''c1'' 63871405200000000 None]), (lit ''Calls'', [])])) 739251 = [] \<and>
   run_engine_for_date ascii_tables sample_isoformat first_appearance
       [(lit ''Calendar'', [sample_event ''c1'' 63871405200000000 None]), (lit ''Calls'', [])] 739251 60 =
     Inr \<lparr> res_target_date = 739251, res_total_events = 0, res_num_sessions = 0,
           res_memory_story =
             lit ''No events were found for '' @ lit ''2025-01-01'' @
             lit ''. There is nothing to reconstruct for this day.'',
           res_caregiver_summary =
             lit ''- No specific activities were recorded for this date.'' @ lit [CHR 0x0A] @
             lit ''- Continue gentle check-ins according to the usual routine.'',
           res_per_source_counts = [(lit ''Calendar'', 1), (lit ''Calls'', 0)] \<rparr>"
proof -
  have h: "filter_events_for_day (concat (map snd
       [(lit ''Calendar'', [sample_event ''c1'' 63871405200000000 None]), (lit ''Calls'', [])])) 739251 = []"
    by (simp add: filter_events_for_day_def date_of_def sample_event_def)
  have i: "sample_isoformat 739251 = lit ''2025-01-01''" by (simp add: sample_isoformat_def)
  have c: "map (\<lambda>(k, v). (k, length v))
              [(lit ''Calendar'', [sample_event ''c1'' 63871405200000000 None]), (lit ''Calls'', [])] =
           [(lit ''Calendar'', 1), (lit ''Calls'', 0)]"
    by simp
  from run_engine_for_date_no_events [OF h, of ascii_tables sample_isoformat first_appearance 60]
  have "run_engine_for_date ascii_tables sample_isoformat first_appearance
       [(lit ''Calendar'', [sample_event ''c1'' 63871405200000000 None]), (lit ''Calls'', [])] 739251 60 =
     Inr \<lparr> res_target_date = 739251, res_total_events = 0, res_num_sessions = 0,
           res_memory_story = lit ''No events were found for '' @ sample_isoformat 739251 @
                   lit ''. There is nothing to reconstruct for this day.'',
           res_caregiver_summary =
             lit ''- No specific activities were recorded for this date.'' @ lit [CHR 0x0A] @
             lit ''- Continue gentle check-ins according to the usual routine.'',
           res_per_source_counts = map (\<lambda>(k, v). (k, length v))
              [(lit ''Calendar'', [sample_event ''c1'' 63871405200000000 None]), (lit ''Calls'', [])] \<rparr>"
    by (rule conjunct1)
  then show ?thesis using h by (simp only: i c simp_thms)
qed

end
